theory Spec2Isabelle
  imports Main "HOL-Library.Signed_Division"
begin

section \<open>The data model of the btree\<close>

text \<open>
  Runtime failures of the Go program are values. The first four are what the Go runtime
  or the code itself raises. The last two are not Go errors. \<open>OutOfFuel\<close>: the
  recursive descents follow pointers through the heap, so they are given a recursion
  budget, and \<open>OutOfFuel\<close> says that the budget was too small. \<open>Unmodelled\<close>: the
  run has reached \<open>append\<close> on a slice that may have spare capacity, where what Go
  does depends on the growth policy of its runtime (see \<open>split\<close>); the model stops
  there instead of guessing.
\<close>

datatype error =
    IndexOutOfRange
  | SliceBoundsOutOfRange
  | NilDereference
  | Panic string
  | OutOfFuel
  | Unmodelled

text \<open>
  \<open>type key int\<close>, \<open>type value interface{}\<close>: a key is an integer, a value is anything,
  \<open>nil\<close> included (\<open>None\<close>). Entries are never written through a pointer once built,
  so an \<open>*entry\<close> is modelled by the entry itself.
\<close>

record 'v entry =
  key :: int
  val :: "'v option"

text \<open>
  A \<open>*node\<close> is an address (\<open>nil\<close> is \<open>None\<close> where the code allows it). Nodes are
  mutated in place and reached through several pointers (the parent field of the nodes
  made by \<open>split\<close> points at the node that was split), so they live in a store.
\<close>

record 'v node =
  parent :: "nat option"
  entries :: "'v entry list"
  children :: "nat list"

text \<open>
  The btree struct (\<open>root\<close>, \<open>size\<close>, \<open>order\<close>) together with the heap its nodes
  live in: \<open>store\<close> maps an address to the node there and \<open>next_addr\<close> is the next
  address \<open>&node{...}\<close> hands out.
\<close>

record 'v btree =
  store :: "nat \<Rightarrow> 'v node"
  next_addr :: nat
  root :: "nat option"
  size_b :: int
  order :: int

definition empty_node :: "'v node" where
  "empty_node = \<lparr>parent = None, entries = [], children = []\<rparr>"

definition newBtreeOrder :: "int \<Rightarrow> 'v btree" where
  "newBtreeOrder ord =
     \<lparr>store = (\<lambda>_. empty_node), next_addr = 0, root = None, size_b = 0, order = ord\<rparr>"

definition defaultOrder :: int where
  "defaultOrder = 3"

definition newBtree :: "'v btree" where
  "newBtree = newBtreeOrder defaultOrder"

definition alloc :: "'v node \<Rightarrow> 'v btree \<Rightarrow> nat \<times> 'v btree" where
  "alloc n b =
     (next_addr b, b\<lparr>store := (store b)(next_addr b := n), next_addr := Suc (next_addr b)\<rparr>)"

definition set_entries :: "nat \<Rightarrow> 'v entry list \<Rightarrow> 'v btree \<Rightarrow> 'v btree" where
  "set_entries a es b = b\<lparr>store := (store b)(a := (store b a)\<lparr>entries := es\<rparr>)\<rparr>"

definition set_children :: "nat \<Rightarrow> nat list \<Rightarrow> 'v btree \<Rightarrow> 'v btree" where
  "set_children a cs b = b\<lparr>store := (store b)(a := (store b a)\<lparr>children := cs\<rparr>)\<rparr>"

section \<open>Occupancy predicates\<close>

definition isLeaf :: "'v node \<Rightarrow> bool" where
  "isLeaf n \<longleftrightarrow> length (children n) = 0"

definition isFull :: "'v node \<Rightarrow> int \<Rightarrow> bool" where
  "isFull n ord \<longleftrightarrow> int (length (entries n)) \<ge> ord"

text \<open>
  \<open>float64(order)\<close>: the conversion of an \<open>int\<close> to \<open>float64\<close> is exact up to a
  magnitude of \<open>2^53\<close>; a larger magnitude is rounded to 53 significant bits, to the
  nearest multiple of the spacing \<open>u\<close> (a power of two) and to the even one in a tie.
  The result is always an integer, and since an \<open>int\<close> of Go has at most 64 bits it
  is far from the limits of \<open>float64\<close>. \<open>spacing m 1\<close> is the least power of two
  \<open>u\<close> for which \<open>m div u\<close> has at most 53 bits.
\<close>

function spacing :: "nat \<Rightarrow> nat \<Rightarrow> nat" where
  "spacing m u = (if m div u < 2 ^ 53 then u else spacing m (2 * u))"
  by pat_completeness auto

termination
proof (relation "measure (\<lambda>(m, u). m div u)", goal_cases)
  case 1
  show ?case by simp
next
  case (2 m u)
  then have "0 < m div u" by simp
  moreover have "m div (2 * u) = (m div u) div 2"
    by (simp add: div_mult2_eq mult.commute)
  ultimately show ?case by simp
qed

declare spacing.simps [simp del]

definition float64_of_int :: "int \<Rightarrow> int" where
  "float64_of_int x =
     (if \<bar>x\<bar> \<le> 2 ^ 53 then x
      else
        (let m = nat \<bar>x\<bar>; u = spacing m 1; q = m div u; r = m mod u;
             n = (if 2 * r < u \<or> (2 * r = u \<and> even q) then q else q + 1)
         in sgn x * int (n * u)))"

text \<open>
  \<open>int(math.Ceil(float64(order)/2.0))\<close>: halving a \<open>float64\<close> of this size is exact,
  and so is the conversion of the ceiling back to \<open>int\<close>.
\<close>

definition ceil_half :: "int \<Rightarrow> int" where
  "ceil_half ord = (float64_of_int ord + 1) div 2"

definition canSteal :: "'v node \<Rightarrow> int \<Rightarrow> bool" where
  "canSteal n ord \<longleftrightarrow> int (length (entries n)) > ceil_half ord"

definition isUnderflowed :: "'v node \<Rightarrow> int \<Rightarrow> bool" where
  "isUnderflowed n ord \<longleftrightarrow> int (length (entries n)) < ceil_half ord"

section \<open>search\<close>

text \<open>
  The loop of \<open>search\<close> on \<open>low\<close> and \<open>high\<close>; \<open>mid\<close> is only assigned inside the
  loop. Go's \<open>/\<close> truncates, hence \<open>sdiv\<close>. On a match the code returns \<open>mid + 1\<close>.
\<close>

function search_loop :: "'v entry list \<Rightarrow> int \<Rightarrow> int \<Rightarrow> int \<Rightarrow> error + (int \<times> bool)" where
  "search_loop es k low high =
     (if low \<le> high then
        (let mid = (high + low) sdiv 2 in
         if mid < 0 \<or> int (length es) \<le> mid then Inl IndexOutOfRange
         else
           (let entryKey = key (es ! nat mid) in
            if k > entryKey then search_loop es k (mid + 1) high
            else if k < entryKey then search_loop es k low (mid - 1)
            else Inr (mid + 1, True)))
      else Inr (low, False))"
  by pat_completeness auto

termination
proof (relation "measure (\<lambda>(es, k, low, high). nat (high - low + 1))", goal_cases)
  case 1
  show ?case by simp
next
  case (2 es k low high mid entryKey)
  then show ?case by (auto simp: signed_divide_int_def sgn_if split: if_splits)
next
  case (3 es k low high mid entryKey)
  then show ?case by (auto simp: signed_divide_int_def sgn_if split: if_splits)
qed

definition search :: "'v entry list \<Rightarrow> int \<Rightarrow> error + (int \<times> bool)" where
  "search es k = search_loop es k 0 (int (length es) - 1)"

section \<open>split\<close>

text \<open>
  \<open>split\<close> leaves the receiver untouched and builds three nodes: \<open>left\<close>, \<open>right\<close>
  and the node it returns, whose children are \<open>append(n.children, left, right)\<close>. For a
  receiver without children (\<open>nil\<close> or \<open>[]*node{}\<close>, both of capacity 0) \<open>append\<close> has to
  allocate, and the new node gets a slice of its own. For a receiver with children,
  \<open>append\<close> writes into the spare capacity of the receiver's slice if there is any, and
  the two nodes then share one array; how much capacity an earlier \<open>append\<close> left is up
  to the Go runtime, not to this code. The model covers the first case and answers
  \<open>Unmodelled\<close> in the second.
\<close>

definition split :: "nat \<Rightarrow> 'v btree \<Rightarrow> error + (nat \<times> 'v btree)" where
  "split a b =
     (let n = store b a in
      if length (entries n) = 0 then Inr (a, b)
      else
        (let mid = length (entries n) div 2;
             (left, b1) = alloc \<lparr>parent = Some a, entries = take mid (entries n), children = []\<rparr> b;
             (right, b2) = alloc \<lparr>parent = Some a, entries = drop mid (entries n), children = []\<rparr> b1
         in if children n \<noteq> [] then Inl Unmodelled
            else Inr (alloc \<lparr>parent = parent n,
                             entries = [\<lparr>key = key (entries n ! mid), val = None\<rparr>],
                             children = children n @ [left, right]\<rparr> b2)))"

section \<open>get\<close>

fun getNode :: "nat \<Rightarrow> 'v btree \<Rightarrow> nat \<Rightarrow> int \<Rightarrow> error + ('v entry option \<times> bool)" where
  "getNode 0 b a k = Inl OutOfFuel"
| "getNode (Suc fuel) b a k =
     (let n = store b a in
      case search (entries n) k of
        Inl err \<Rightarrow> Inl err
      | Inr (i, exists) \<Rightarrow>
          if exists then
            (if 0 \<le> i \<and> i < int (length (entries n)) then Inr (Some (entries n ! nat i), True)
             else Inl IndexOutOfRange)
          else if i > int (length (children n)) then Inr (None, False)
          else if 0 \<le> i \<and> i < int (length (children n))
            then getNode fuel b (children n ! nat i) k
          else Inl IndexOutOfRange)"

definition get :: "nat \<Rightarrow> 'v btree \<Rightarrow> int \<Rightarrow> error + ('v entry option \<times> bool)" where
  "get fuel b k =
     (case root b of
        None \<Rightarrow> Inr (None, False)
      | Some r \<Rightarrow>
          if length (entries (store b r)) = 0 then Inr (None, False)
          else getNode fuel b r k)"

section \<open>insert\<close>

fun insertNode :: "nat \<Rightarrow> 'v btree \<Rightarrow> nat \<Rightarrow> 'v entry \<Rightarrow> error + (bool \<times> 'v btree)" where
  "insertNode 0 b a e = Inl OutOfFuel"
| "insertNode (Suc fuel) b a e =
     (case (if root b = Some a \<and> isFull (store b a) (order b)
            then (case split a b of
                    Inl err \<Rightarrow> Inl err
                  | Inr (r, b') \<Rightarrow> Inr (b'\<lparr>root := Some r\<rparr>))
            else Inr b) of
        Inl err \<Rightarrow> Inl err
      | Inr b1 \<Rightarrow>
          (let n = store b1 a
           in case search (entries n) (key e) of
             Inl err \<Rightarrow> Inl err
           | Inr (idx, exists) \<Rightarrow>
               if exists then
                 (if 0 \<le> idx \<and> idx < int (length (entries n))
                  then Inr (False, set_entries a ((entries n)[nat idx := e]) b1)
                  else Inl IndexOutOfRange)
               else if isLeaf n then
                 (if 0 \<le> idx \<and> idx \<le> int (length (entries n))
                  then Inr (True, (set_entries a (take (nat idx) (entries n) @ e # drop (nat idx) (entries n)) b1)
                                    \<lparr>size_b := size_b b1 + 1\<rparr>)
                  else Inl SliceBoundsOutOfRange)
               else if \<not> (0 \<le> idx \<and> idx < int (length (children n))) then Inl IndexOutOfRange
               else
                 (let c = children n ! nat idx
                  in case (if isFull (store b1 c) (order b1)
                           then (case split c b1 of
                                   Inl err \<Rightarrow> Inl err
                                 | Inr (c', b') \<Rightarrow>
                                     Inr (set_children a ((children (store b' a))[nat idx := c']) b'))
                           else Inr b1) of
                       Inl err \<Rightarrow> Inl err
                     | Inr b2 \<Rightarrow> insertNode fuel b2 (children (store b2 a) ! nat idx) e)))"

definition insert_b :: "nat \<Rightarrow> 'v btree \<Rightarrow> int \<Rightarrow> 'v option \<Rightarrow> error + 'v btree" where
  "insert_b fuel b k v =
     (case root b of
        None \<Rightarrow>
          (let (r, b') = alloc \<lparr>parent = None, entries = [\<lparr>key = k, val = v\<rparr>], children = []\<rparr>
                               (b\<lparr>size_b := size_b b + 1\<rparr>)
           in Inr (b'\<lparr>root := Some r\<rparr>))
      | Some r \<Rightarrow>
          (case insertNode fuel b r \<lparr>key = k, val = v\<rparr> of
             Inl err \<Rightarrow> Inl err
           | Inr (_, b') \<Rightarrow> Inr b'))"

section \<open>remove\<close>

text \<open>
  The block that \<open>removeNode\<close> runs when the leaf has underflowed, up to its
  \<open>return true\<close>. The calls of \<open>spew.Dump\<close> only print, but their arguments are
  evaluated, so \<open>node.parent.children[parIdx]\<close> is read (and can fail) before the test
  of \<open>canSteal\<close>. The merge is commented out in the source and absent here.
\<close>

definition underflow :: "'v btree \<Rightarrow> nat \<Rightarrow> int \<Rightarrow> error + (bool \<times> 'v btree)" where
  "underflow b a k =
     (case parent (store b a) of
        None \<Rightarrow> Inl NilDereference
      | Some p \<Rightarrow>
          (case search (entries (store b p)) k of
             Inl err \<Rightarrow> Inl err
           | Inr (parIdx, _) \<Rightarrow>
               let cs = children (store b p) in
               if \<not> (0 \<le> parIdx \<and> parIdx < int (length cs)) then Inl IndexOutOfRange
               else if canSteal (store b (cs ! nat parIdx)) (order b)
                 then Inl (Panic ''can steal from left sibling'')
               else if \<not> (parIdx + 1 < int (length cs)) then Inl IndexOutOfRange
               else
                 (let rLeaf = cs ! nat (parIdx + 1) in
                  if canSteal (store b rLeaf) (order b) then
                    (case entries (store b rLeaf) of
                       [] \<Rightarrow> Inl IndexOutOfRange
                     | e0 # _ \<Rightarrow>
                         (let b2 = set_entries a (entries (store b a) @ [e0]) b;
                              b3 = set_entries rLeaf (tl (entries (store b2 rLeaf))) b2
                          in Inr (True, b3)))
                  else Inr (True, b))))"

fun removeNode :: "nat \<Rightarrow> 'v btree \<Rightarrow> nat \<Rightarrow> int \<Rightarrow> error + (bool \<times> 'v btree)" where
  "removeNode 0 b a k = Inl OutOfFuel"
| "removeNode (Suc fuel) b a k =
     (let n = store b a in
      case search (entries n) k of
        Inl err \<Rightarrow> Inl err
      | Inr (idx, exists) \<Rightarrow>
          if \<not> isLeaf n then
            (if 0 \<le> idx \<and> idx < int (length (children n))
             then removeNode fuel b (children n ! nat idx) k
             else Inl IndexOutOfRange)
          else if \<not> exists then Inr (False, b)
          else if \<not> (0 \<le> idx \<and> idx + 1 \<le> int (length (entries n))) then Inl SliceBoundsOutOfRange
          else
            (let b1 = (set_entries a (take (nat idx) (entries n) @ drop (nat idx + 1) (entries n)) b)
                        \<lparr>size_b := size_b b - 1\<rparr>
             in if isUnderflowed (store b1 a) (order b1) then underflow b1 a k
                else Inr (True, b1)))"

definition remove :: "nat \<Rightarrow> 'v btree \<Rightarrow> int \<Rightarrow> error + (bool \<times> 'v btree)" where
  "remove fuel b k =
     (case root b of
        None \<Rightarrow> Inr (False, b)
      | Some r \<Rightarrow> removeNode fuel b r k)"

section \<open>Range scans\<close>

definition getAll :: "'v btree \<Rightarrow> int \<Rightarrow> error + 'v entry list" where
  "getAll b limit = (if size_b b = 0 \<or> limit = 0 then Inr [] else Inl (Panic ''unimplemented''))"

definition getAbove :: "'v btree \<Rightarrow> int \<Rightarrow> int \<Rightarrow> error + 'v entry list" where
  "getAbove b k limit = Inl (Panic ''unimplemented'')"

definition getBelow :: "'v btree \<Rightarrow> int \<Rightarrow> int \<Rightarrow> error + 'v entry list" where
  "getBelow b k limit = Inl (Panic ''unimplemented'')"

definition getBetween :: "'v btree \<Rightarrow> int \<Rightarrow> int \<Rightarrow> int \<Rightarrow> error + 'v entry list" where
  "getBetween b low high limit = Inl (Panic ''unimplemented'')"

section \<open>Running several operations\<close>

text \<open>What a caller sees of a failed call, one call after another, and a sequence of
  public operations that stops at the first failure.\<close>

definition failure :: "error + 'a \<Rightarrow> error option" where
  "failure r = (case r of Inl e \<Rightarrow> Some e | Inr _ \<Rightarrow> None)"

definition and_then :: "error + 'a \<Rightarrow> ('a \<Rightarrow> error + 'b) \<Rightarrow> error + 'b" where
  "and_then r f = (case r of Inl err \<Rightarrow> Inl err | Inr x \<Rightarrow> f x)"

datatype 'v op = Insert int "'v option" | Remove int

fun run_ops :: "nat \<Rightarrow> 'v btree \<Rightarrow> 'v op list \<Rightarrow> error + 'v btree" where
  "run_ops fuel b [] = Inr b"
| "run_ops fuel b (Insert k v # ops) =
     (case insert_b fuel b k v of
        Inl err \<Rightarrow> Inl err
      | Inr b' \<Rightarrow> run_ops fuel b' ops)"
| "run_ops fuel b (Remove k # ops) =
     (case remove fuel b k of
        Inl err \<Rightarrow> Inl err
      | Inr (_, b') \<Rightarrow> run_ops fuel b' ops)"

definition tree_of_ops :: "int \<Rightarrow> 'v op list \<Rightarrow> 'v btree" where
  "tree_of_ops ord ops =
     (case run_ops 8 (newBtreeOrder ord) ops of Inr b \<Rightarrow> b | Inl _ \<Rightarrow> newBtreeOrder ord)"

text \<open>
  The tree of order 3 after the inserts of 10, 20, 30, 40 and 25: the root (address 3)
  holds the key 20 and has the leaves at addresses 1 (key 10) and 2 (keys 20, 25, 30)
  as children.
\<close>

definition example_ops :: "string op list" where
  "example_ops = [Insert 10 (Some ''a''), Insert 20 (Some ''b''), Insert 30 (Some ''c''),
                  Insert 40 (Some ''d''), Insert 25 (Some ''e'')]"

definition example_tree :: "string btree" where
  "example_tree = tree_of_ops 3 example_ops"



section \<open>Shapes of trees in the store\<close>


text \<open>
  \<open>node_shape d b a\<close>: below \<open>a\<close> there is a tree of height at most \<open>d\<close> in which
  every node that is not a leaf has more children than entries (the data model asks for
  exactly one more). \<open>tree_keys d b a\<close> are the keys of that tree.
\<close>

fun node_shape :: "nat \<Rightarrow> 'v btree \<Rightarrow> nat \<Rightarrow> bool" where
  "node_shape 0 b a = False"
| "node_shape (Suc d) b a =
     (let n = store b a in
      isLeaf n \<or> (length (entries n) < length (children n) \<and> list_all (node_shape d b) (children n)))"

fun tree_keys :: "nat \<Rightarrow> 'v btree \<Rightarrow> nat \<Rightarrow> int list" where
  "tree_keys 0 b a = []"
| "tree_keys (Suc d) b a =
     map key (entries (store b a)) @ concat (map (tree_keys d b) (children (store b a)))"


text \<open>Two states with the same root, the same allocated addresses, the same order and the
  same children and parent in every node.\<close>

definition same_structure :: "'v btree \<Rightarrow> 'v btree \<Rightarrow> bool" where
  "same_structure b b' \<longleftrightarrow>
     root b' = root b \<and> next_addr b' = next_addr b \<and> order b' = order b
     \<and> (\<forall>x. children (store b' x) = children (store b x) \<and> parent (store b' x) = parent (store b x))"

section \<open>Properties of search\<close>

lemma sdiv_two: "(a :: int) sdiv 2 = (if 0 \<le> a then a div 2 else - ((- a) div 2))"
  by (simp add: signed_divide_int_def sgn_if)

lemma search_loop_range:
  "0 \<le> low \<Longrightarrow> high < int (length es) \<Longrightarrow> low \<le> high + 1 \<Longrightarrow>
   \<exists>i ex. search_loop es k low high = Inr (i, ex) \<and> low \<le> i \<and> i \<le> high + 1
      \<and> (ex \<longrightarrow> low + 1 \<le> i \<and> key (es ! nat (i - 1)) = k)"
proof (induction es k low high rule: search_loop.induct)
  case (1 es k low high)
  show ?case
  proof (cases "low \<le> high")
    case False
    with 1(3-) show ?thesis by (subst search_loop.simps) auto
  next
    case True
    define mid where "mid = (high + low) sdiv 2"
    from True 1(3) have m: "mid = (high + low) div 2" "low \<le> mid" "mid \<le> high"
      by (auto simp: mid_def sdiv_two)
    with 1(3,4) have inr: "\<not> (mid < 0 \<or> int (length es) \<le> mid)" by auto
    consider (gt) "k > key (es ! nat mid)" | (lt) "k < key (es ! nat mid)" | (eq) "k = key (es ! nat mid)"
      by linarith
    then show ?thesis
    proof cases
      case gt
      from 1(1)[OF True mid_def[symmetric, THEN sym] inr refl gt] m 1(3-)
      obtain i ex where "search_loop es k (mid + 1) high = Inr (i, ex)" "mid + 1 \<le> i" "i \<le> high + 1"
        "ex \<longrightarrow> mid + 1 + 1 \<le> i \<and> key (es ! nat (i - 1)) = k" by auto
      with True inr gt m show ?thesis
        by (subst search_loop.simps) (auto simp: Let_def mid_def[symmetric])
    next
      case lt
      from 1(2)[OF True mid_def[symmetric, THEN sym] inr refl _ lt] lt m 1(3-)
      obtain i ex where "search_loop es k low (mid - 1) = Inr (i, ex)" "low \<le> i" "i \<le> mid - 1 + 1"
        "ex \<longrightarrow> low + 1 \<le> i \<and> key (es ! nat (i - 1)) = k" by auto
      with True inr lt m show ?thesis
        by (subst search_loop.simps) (auto simp: Let_def mid_def[symmetric])
    next
      case eq
      with True inr m show ?thesis
        by (subst search_loop.simps) (auto simp: Let_def mid_def[symmetric])
    qed
  qed
qed

lemma search_range:
  "\<exists>i ex. search es k = Inr (i, ex) \<and> 0 \<le> i \<and> i \<le> int (length es)
      \<and> (ex \<longrightarrow> 1 \<le> i \<and> key (es ! nat (i - 1)) = k)"
  using search_loop_range[of 0 "int (length es) - 1" es k] by (auto simp: search_def)

text \<open>On a sorted list the loop finds a key that is there.\<close>

lemma search_loop_finds:
  "sorted (map key es) \<Longrightarrow> 0 \<le> low \<Longrightarrow> high < int (length es) \<Longrightarrow>
   low \<le> int j \<Longrightarrow> int j \<le> high \<Longrightarrow> key (es ! j) = k \<Longrightarrow>
   \<exists>i. search_loop es k low high = Inr (i, True)"
proof (induction es k low high rule: search_loop.induct)
  case (1 es k low high)
  have lh: "low \<le> high" using 1(6,7) by simp
  define mid where "mid = (high + low) sdiv 2"
  from lh 1(4) have m: "mid = (high + low) div 2" "low \<le> mid" "mid \<le> high"
    by (auto simp: mid_def sdiv_two)
  with 1(4,5) have inr: "\<not> (mid < 0 \<or> int (length es) \<le> mid)" by auto
  have jlen: "j < length es" using 1(5,7) by simp
  have mlen: "nat mid < length es" using inr by linarith
  consider (gt) "k > key (es ! nat mid)" | (lt) "k < key (es ! nat mid)" | (eq) "k = key (es ! nat mid)"
    by linarith
  then show ?case
  proof cases
    case gt
    have "\<not> j \<le> nat mid"
    proof
      assume "j \<le> nat mid"
      then have "map key es ! j \<le> map key es ! nat mid"
        using 1(3) mlen by (simp add: sorted_nth_mono del: nth_map)
      then show False using gt 1(8) jlen mlen by simp
    qed
    then have "mid + 1 \<le> int j" by simp
    from 1(1)[OF lh mid_def[symmetric, THEN sym] inr refl gt 1(3) _ 1(5) this 1(7) 1(8)] m 1(4)
    obtain i where "search_loop es k (mid + 1) high = Inr (i, True)" by auto
    with lh inr gt show ?thesis
      by (subst search_loop.simps) (auto simp: Let_def mid_def[symmetric])
  next
    case lt
    have "\<not> nat mid \<le> j"
    proof
      assume "nat mid \<le> j"
      then have "map key es ! nat mid \<le> map key es ! j"
        using 1(3) jlen by (simp add: sorted_nth_mono del: nth_map)
      then show False using lt 1(8) jlen mlen by simp
    qed
    then have "int j \<le> mid - 1" by simp
    from 1(2)[OF lh mid_def[symmetric, THEN sym] inr refl _ lt 1(3,4) _ 1(6) this 1(8)] lt m 1(5)
    obtain i where "search_loop es k low (mid - 1) = Inr (i, True)" by auto
    with lh inr lt show ?thesis
      by (subst search_loop.simps) (auto simp: Let_def mid_def[symmetric])
  next
    case eq
    with lh inr show ?thesis
      by (subst search_loop.simps) (auto simp: Let_def mid_def[symmetric])
  qed
qed

lemma search_finds:
  assumes "sorted (map key es)" "k \<in> key ` set es"
  shows "\<exists>i. search es k = Inr (i, True) \<and> 1 \<le> i \<and> i \<le> int (length es)
           \<and> key (es ! nat (i - 1)) = k"
proof -
  from assms(2) obtain j where j: "j < length es" "key (es ! j) = k"
    by (auto simp: in_set_conv_nth)
  from search_loop_finds[OF assms(1), of 0 "int (length es) - 1" j k] j
  obtain i where "search es k = Inr (i, True)" by (auto simp: search_def)
  with search_range[of es k] show ?thesis by auto
qed

lemma search_absent:
  assumes "k \<notin> key ` set es"
  shows "\<exists>i. search es k = Inr (i, False) \<and> 0 \<le> i \<and> i \<le> int (length es)"
proof -
  from search_range[of es k] obtain i ex where
    r: "search es k = Inr (i, ex)" "0 \<le> i" "i \<le> int (length es)"
       "ex \<longrightarrow> 1 \<le> i \<and> key (es ! nat (i - 1)) = k" by blast
  have "\<not> ex"
  proof
    assume ex
    with r have "nat (i - 1) < length es" "key (es ! nat (i - 1)) = k" by auto
    then have "k \<in> key ` set es" by (metis imageI nth_mem)
    with assms show False by simp
  qed
  with r show ?thesis by auto
qed

section \<open>Removal: absent keys, inner nodes, leaves\<close>

lemma removeNode_absent:
  "node_shape d b a \<Longrightarrow> k \<notin> set (tree_keys d b a) \<Longrightarrow> d \<le> fuel \<Longrightarrow>
   removeNode fuel b a k = Inr (False, b)"
proof (induction d arbitrary: a fuel)
  case 0
  then show ?case by simp
next
  case (Suc d)
  from Suc.prems(3) obtain f where f: "fuel = Suc f" "d \<le> f" by (cases fuel) auto
  let ?n = "store b a"
  from Suc.prems(2) have "k \<notin> key ` set (entries ?n)" by auto
  from search_absent[OF this] obtain i where
    i: "search (entries ?n) k = Inr (i, False)" "0 \<le> i" "i \<le> int (length (entries ?n))" by blast
  show ?case
  proof (cases "isLeaf ?n")
    case True
    with i f show ?thesis by simp
  next
    case False
    with Suc.prems(1) have sh: "length (entries ?n) < length (children ?n)"
      "list_all (node_shape d b) (children ?n)" by (auto simp: Let_def)
    from i sh have ir: "nat i < length (children ?n)" by linarith
    with sh have c1: "node_shape d b (children ?n ! nat i)" by (simp add: list_all_length)
    from ir have "children ?n ! nat i \<in> set (children ?n)" by simp
    with Suc.prems(2) have c2: "k \<notin> set (tree_keys d b (children ?n ! nat i))" by auto
    from Suc.IH[OF c1 c2 f(2)] i ir False f show ?thesis by (simp add: Let_def)
  qed
qed

lemma underflow_effect:
  assumes "underflow b a k = Inr (r, b')"
    and ua: "int (length (entries (store b a))) < ceil_half (order b)"
  shows "r \<and> same_structure b b' \<and> size_b b' = size_b b
   \<and> (\<forall>x. length (entries (store b' x)) \<le> length (entries (store b x))
          \<or> int (length (entries (store b' x))) \<le> ceil_half (order b))"
proof -
  from assms(1) obtain p parIdx ex' where
    p: "parent (store b a) = Some p" "search (entries (store b p)) k = Inr (parIdx, ex')"
    by (auto simp: underflow_def split: option.splits sum.splits)
  let ?cs = "children (store b p)"
  let ?rLeaf = "?cs ! nat (parIdx + 1)"
  from assms(1) p have rest2:
    "(if canSteal (store b ?rLeaf) (order b) then
        (case entries (store b ?rLeaf) of
           [] \<Rightarrow> Inl IndexOutOfRange
         | e0 # _ \<Rightarrow>
             (let b2 = set_entries a (entries (store b a) @ [e0]) b;
                  b3 = set_entries ?rLeaf (tl (entries (store b2 ?rLeaf))) b2
              in Inr (True, b3)))
      else Inr (True, b)) = Inr (r, b')"
    by (simp add: underflow_def Let_def split: if_splits)
  show ?thesis
  proof (cases "canSteal (store b ?rLeaf) (order b)")
    case False
    with rest2 have "r" "b' = b" by auto
    then show ?thesis by (auto simp: same_structure_def)
  next
    case True
    with rest2 obtain e0 es0 where e0: "entries (store b ?rLeaf) = e0 # es0"
      by (auto split: list.splits)
    define b2 where "b2 = set_entries a (entries (store b a) @ [e0]) b"
    from rest2 True e0 have rb: "r"
      "b' = set_entries ?rLeaf (tl (entries (store b2 ?rLeaf))) b2"
      by (auto simp: Let_def b2_def)
    have st: "same_structure b b'"
      by (simp add: rb b2_def same_structure_def set_entries_def)
    have sz: "size_b b' = size_b b"
      by (simp add: rb b2_def set_entries_def)
    have en: "length (entries (store b' x)) \<le> length (entries (store b x))
              \<or> int (length (entries (store b' x))) \<le> ceil_half (order b)" for x
    proof (cases "x = ?rLeaf")
      case xr: True
      show ?thesis
      proof (cases "?rLeaf = a")
        case True
        then show ?thesis using ua xr by (simp add: rb b2_def set_entries_def)
      next
        case False
        then show ?thesis using xr e0 by (simp add: rb b2_def set_entries_def)
      qed
    next
      case xnr: False
      show ?thesis
      proof (cases "x = a")
        case True
        then show ?thesis using xnr ua by (simp add: rb b2_def set_entries_def)
      next
        case False
        then show ?thesis using xnr by (simp add: rb b2_def set_entries_def)
      qed
    qed
    from st sz en rb(1) show ?thesis by simp
  qed
qed

lemma removeNode_effect:
  "removeNode fuel b a k = Inr (r, b') \<Longrightarrow>
   same_structure b b'
   \<and> size_b b' = (if r then size_b b - 1 else size_b b)
   \<and> (\<forall>x. length (entries (store b' x)) \<le> length (entries (store b x))
          \<or> int (length (entries (store b' x))) \<le> ceil_half (order b))"
proof (induction fuel arbitrary: a)
  case 0
  then show ?case by simp
next
  case (Suc fuel)
  let ?n = "store b a"
  from search_range[of "entries ?n" k] obtain idx ex where
    sr: "search (entries ?n) k = Inr (idx, ex)" "0 \<le> idx" "idx \<le> int (length (entries ?n))"
    by blast
  show ?case
  proof (cases "isLeaf ?n")
    case False
    with Suc.prems sr have "removeNode fuel b (children ?n ! nat idx) k = Inr (r, b')"
      by (simp add: Let_def split: if_splits)
    from Suc.IH[OF this] show ?thesis .
  next
    case leaf: True
    show ?thesis
    proof (cases ex)
      case False
      with Suc.prems sr leaf show ?thesis by (simp add: same_structure_def)
    next
      case True
      define b1 where "b1 = (set_entries a (take (nat idx) (entries ?n) @ drop (nat idx + 1) (entries ?n)) b)
                        \<lparr>size_b := size_b b - 1\<rparr>"
      have in_range: "idx + 1 \<le> int (length (entries ?n))"
        using Suc.prems sr leaf True by (simp add: Let_def split: if_splits)
      have s1: "same_structure b b1" "size_b b1 = size_b b - 1" "order b1 = order b"
        by (simp_all add: b1_def same_structure_def set_entries_def)
      have e1: "\<And>x. length (entries (store b1 x)) \<le> length (entries (store b x))"
        using in_range sr by (auto simp: b1_def set_entries_def)
      have rest: "(if isUnderflowed (store b1 a) (order b1) then underflow b1 a k
                   else Inr (True, b1)) = Inr (r, b')"
        using Suc.prems sr leaf True in_range by (simp add: Let_def b1_def split: if_splits)
      show ?thesis
      proof (cases "isUnderflowed (store b1 a) (order b1)")
        case False
        with rest have "r" "b' = b1" by auto
        with s1 e1 show ?thesis by auto
      next
        case under: True
        then have ua: "int (length (entries (store b1 a))) < ceil_half (order b1)"
          by (simp add: isUnderflowed_def)
        from rest under have "underflow b1 a k = Inr (r, b')" by simp
        from underflow_effect[OF this ua] have
          u: "r" "same_structure b1 b'" "size_b b' = size_b b1"
             "\<And>x. length (entries (store b' x)) \<le> length (entries (store b1 x))
                  \<or> int (length (entries (store b' x))) \<le> ceil_half (order b1)" by auto
        have "same_structure b b'" using s1(1) u(2) by (simp add: same_structure_def)
        moreover have "size_b b' = size_b b - 1" using u(3) s1(2) by simp
        moreover have "length (entries (store b' x)) \<le> length (entries (store b x))
                  \<or> int (length (entries (store b' x))) \<le> ceil_half (order b)" for x
          using u(4)[of x] e1[of x] s1(3) by auto
        ultimately show ?thesis using u(1) by simp
      qed
    qed
  qed
qed

lemma removeNode_leaf_stop:
  assumes "isLeaf (store b a)"
    and "search (entries (store b a)) k = Inr (idx, True)"
    and "idx < int (length (entries (store b a)))"
    and "ceil_half (order b) \<le> int (length (entries (store b a))) - 1"
  shows "removeNode (Suc fuel) b a k =
           Inr (True, (set_entries a (take (nat idx) (entries (store b a))
                                       @ drop (nat idx + 1) (entries (store b a))) b)
                        \<lparr>size_b := size_b b - 1\<rparr>)"
proof -
  from search_range[of "entries (store b a)" k] assms(2) have i0: "0 \<le> idx" by auto
  have len: "length (take (nat idx) (entries (store b a)) @ drop (nat idx + 1) (entries (store b a)))
               = length (entries (store b a)) - 1"
    using assms(3) i0 by auto
  have "\<not> isUnderflowed
           (store ((set_entries a (take (nat idx) (entries (store b a))
                                    @ drop (nat idx + 1) (entries (store b a))) b)
                     \<lparr>size_b := size_b b - 1\<rparr>) a)
           (order ((set_entries a (take (nat idx) (entries (store b a))
                                    @ drop (nat idx + 1) (entries (store b a))) b)
                     \<lparr>size_b := size_b b - 1\<rparr>))"
    using assms(3,4) i0 len
    by (simp add: isUnderflowed_def set_entries_def del: length_append length_take length_drop)
  with assms i0 show ?thesis by (simp add: Let_def)
qed

section \<open>Occupancy\<close>








section \<open>The ceiling of half the order\<close>





lemma ceil_half_small: "\<bar>ord\<bar> \<le> 2 ^ 53 \<Longrightarrow> ceil_half ord = (ord + 1) div 2"
  unfolding ceil_half_def float64_of_int_def by (simp only: if_True)

lemma spacing_div: "0 < u \<Longrightarrow> 2 ^ 52 \<le> m div u \<Longrightarrow> 2 ^ 52 \<le> m div spacing m u"
proof (induction m u rule: spacing.induct)
  case (1 m u)
  show ?case
  proof (cases "m div u < 2 ^ 53")
    case True
    with 1(3) show ?thesis by (subst spacing.simps) (simp only: if_True)
  next
    case False
    have "m div (2 * u) = (m div u) div 2" by (simp add: div_mult2_eq mult.commute)
    moreover have "(2::nat) ^ 52 \<le> (m div u) div 2" using False by simp
    ultimately have "2 ^ 52 \<le> m div (2 * u)" by (simp only:)
    from 1(1)[OF False _ this] 1(2) have "2 ^ 52 \<le> m div spacing m (2 * u)" by simp
    with False show ?thesis by (subst spacing.simps) (simp only: if_False)
  qed
qed

lemma float64_of_int_ge: "3 \<le> x \<Longrightarrow> 3 \<le> float64_of_int x"
proof (cases "\<bar>x\<bar> \<le> 2 ^ 53")
  case True
  assume "3 \<le> x"
  moreover have "float64_of_int x = x" unfolding float64_of_int_def using True by (simp only: if_True)
  ultimately show ?thesis by (simp only:)
next
  case False
  assume x: "3 \<le> x"
  then have x1: "1 \<le> x" by simp
  have big: "2 ^ 53 < nat x" using False x by simp
  define u where "u = spacing (nat x) 1"
  define n where "n = (if 2 * (nat x mod u) < u \<or> (2 * (nat x mod u) = u \<and> even (nat x div u))
                       then nat x div u else nat x div u + 1)"
  have s: "sgn x = 1" and a: "\<bar>x\<bar> = x" using x by simp_all
  have f: "float64_of_int x = int (n * u)"
    unfolding float64_of_int_def Let_def a s n_def u_def using False a
    by (simp only: if_False mult_1)
  have "(2::nat) ^ 52 \<le> nat x div 1" using big by simp
  from spacing_div[OF _ this] have q: "2 ^ 52 \<le> nat x div u" by (simp add: u_def)
  then have upos: "0 < u" by (cases "u = 0") simp_all
  have "(3::nat) \<le> 2 ^ 52" by simp
  also have "\<dots> \<le> nat x div u" by (rule q)
  also have "\<dots> \<le> n" by (simp add: n_def)
  also have "\<dots> \<le> n * u" using upos by simp
  finally have "3 \<le> int (n * u)" by linarith
  with f show ?thesis by (simp only:)
qed

lemma ceil_half_ge2: "3 \<le> ord \<Longrightarrow> 2 \<le> ceil_half ord"
proof -
  assume "3 \<le> ord"
  from float64_of_int_ge[OF this] have "(3 + 1) div 2 \<le> (float64_of_int ord + 1) div 2"
    by (intro zdiv_mono1) simp_all
  then show ?thesis by (simp add: ceil_half_def)
qed

lemma ceil_half_2: "ceil_half 2 = 1"
  by (simp add: ceil_half_small)

section \<open>Operations keep within the order and keep the order\<close>




lemma split_order: "split a b = Inr (r, b') \<Longrightarrow> order b' = order b"
  by (auto simp: split_def alloc_def Let_def split: if_splits)

lemma insertNode_order:
  "insertNode fuel b a e = Inr (ins, b') \<Longrightarrow> order b' = order b"
proof (induction fuel arbitrary: b a)
  case 0
  then show ?case by simp
next
  case (Suc fuel)
  define st where "st = (if root b = Some a \<and> isFull (store b a) (order b)
            then (case split a b of
                    Inl err \<Rightarrow> Inl err
                  | Inr (r, b') \<Rightarrow> Inr (b'\<lparr>root := Some r\<rparr>))
            else Inr b)"
  have "\<exists>b1. st = Inr b1"
    using Suc.prems by (cases st) (simp_all add: st_def[symmetric])
  then obtain b1 where b1: "st = Inr b1" by blast
  have o1: "order b1 = order b"
    using b1 by (auto simp: st_def split: if_splits sum.splits dest: split_order)
  let ?n = "store b1 a"
  from search_range[of "entries ?n" "key e"] obtain idx ex where
    sr: "search (entries ?n) (key e) = Inr (idx, ex)" "0 \<le> idx" by blast
  consider (upd) "ex" | (leaf) "\<not> ex" "isLeaf ?n" | (desc) "\<not> ex" "\<not> isLeaf ?n" by blast
  then show ?case
  proof cases
    case upd
    with Suc.prems sr b1 o1 show ?thesis
      by (auto simp: st_def[symmetric] Let_def set_entries_def split: if_splits)
  next
    case leaf
    with Suc.prems sr b1 o1 show ?thesis
      by (auto simp: st_def[symmetric] Let_def set_entries_def split: if_splits)
  next
    case desc
    define c where "c = children ?n ! nat idx"
    define st2 where "st2 = (if isFull (store b1 c) (order b1)
                           then (case split c b1 of
                                   Inl err \<Rightarrow> Inl err
                                 | Inr (c', b') \<Rightarrow>
                                     Inr (set_children a ((children (store b' a))[nat idx := c']) b'))
                           else Inr b1)"
    have rec0: "(case st2 of Inl err \<Rightarrow> Inl err
                 | Inr b2 \<Rightarrow> insertNode fuel b2 (children (store b2 a) ! nat idx) e) = Inr (ins, b')"
      using Suc.prems sr b1 desc
      by (simp add: st_def[symmetric] Let_def c_def[symmetric] st2_def[symmetric] split: if_splits)
    then obtain b2 where b2: "st2 = Inr b2"
      "insertNode fuel b2 (children (store b2 a) ! nat idx) e = Inr (ins, b')"
      by (cases st2) simp_all
    have "order b2 = order b1"
      using b2(1) by (auto simp: st2_def set_children_def split: if_splits sum.splits dest: split_order)
    with Suc.IH[OF b2(2)] o1 show ?thesis by simp
  qed
qed

lemma insert_b_order: "insert_b fuel b k v = Inr b' \<Longrightarrow> order b' = order b"
  by (auto simp: insert_b_def alloc_def split: option.splits sum.splits dest: insertNode_order)

lemma remove_order: "remove fuel b k = Inr (r, b') \<Longrightarrow> order b' = order b"
  by (auto simp: remove_def same_structure_def split: option.splits dest!: removeNode_effect)

lemma run_ops_order: "run_ops fuel b ops = Inr b' \<Longrightarrow> order b' = order b"
proof (induction ops arbitrary: b)
  case Nil
  then show ?case by simp
next
  case (Cons x ops)
  show ?case
  proof (cases x)
    case (Insert k v)
    with Cons.prems obtain b1 where "insert_b fuel b k v = Inr b1" "run_ops fuel b1 ops = Inr b'"
      by (auto split: sum.splits)
    with Cons.IH[of b1] insert_b_order[of fuel b k v b1] show ?thesis by simp
  next
    case (Remove k)
    with Cons.prems obtain r b1 where "remove fuel b k = Inr (r, b1)" "run_ops fuel b1 ops = Inr b'"
      by (auto split: sum.splits)
    with Cons.IH[of b1] remove_order[of fuel b k r b1] show ?thesis by simp
  qed
qed


section \<open>The first two inserts\<close>

lemma search_one:
  "k2 \<noteq> k1 \<Longrightarrow> search [\<lparr>key = k1, val = v\<rparr>] k2 = Inr (if k1 < k2 then 1 else 0, False)"
  by (simp add: search_def signed_divide_int_def)

lemma search_two_first:
  "k1 < k2 \<Longrightarrow> search [\<lparr>key = k1, val = v1\<rparr>, \<lparr>key = k2, val = v2\<rparr>] k1 = Inr (1, True)"
  by (simp add: search_def signed_divide_int_def)

lemma two_inserts:
  assumes "k1 \<noteq> k2"
  shows "\<exists>b. run_ops (Suc 0) (newBtreeOrder ord) [Insert k1 v1, Insert k2 v2] = Inr b
             \<and> (root b = Some 0) = (1 < ord)"
proof -
  define b0 :: "'a btree" where
    "b0 = \<lparr>store = (\<lambda>_. empty_node)(0 := \<lparr>parent = None, entries = [\<lparr>key = k1, val = v1\<rparr>], children = []\<rparr>),
           next_addr = Suc 0, root = Some 0, size_b = 1, order = ord\<rparr>"
  have i1: "insert_b (Suc 0) (newBtreeOrder ord) k1 v1 = Inr b0"
    by (simp add: insert_b_def newBtreeOrder_def alloc_def b0_def)
  have s: "search (entries (store b0 0)) k2 = Inr (if k1 < k2 then 1 else 0, False)"
    using assms by (simp add: b0_def search_one)
  show ?thesis
  proof (cases "1 < ord")
    case True
    then have nf: "\<not> isFull (store b0 0) (order b0)" by (simp add: isFull_def b0_def)
    have "\<exists>b. insert_b (Suc 0) b0 k2 v2 = Inr b \<and> root b = Some 0"
      using s nf by (auto simp: insert_b_def isLeaf_def set_entries_def b0_def)
    with i1 True show ?thesis by auto
  next
    case False
    then have f: "isFull (store b0 0) (order b0)" by (simp add: isFull_def b0_def)
    have sp: "\<exists>bs. split 0 b0 = Inr (Suc (Suc (Suc 0)), bs) \<and> store bs 0 = store b0 0"
      by (simp add: split_def alloc_def b0_def Let_def)
    then obtain bs where bs: "split 0 b0 = Inr (Suc (Suc (Suc 0)), bs)" "store bs 0 = store b0 0"
      by blast
    have "\<exists>b. insert_b (Suc 0) b0 k2 v2 = Inr b \<and> root b = Some (Suc (Suc (Suc 0)))"
      using s f bs by (auto simp: insert_b_def isLeaf_def set_entries_def b0_def)
    with i1 False show ?thesis by auto
  qed
qed

lemma remove_after_two_inserts:
  assumes "2 \<le> ord" "k1 < k2"
  shows "failure (and_then (run_ops (Suc 0) (newBtreeOrder ord) [Insert k1 v1, Insert k2 v2])
                           (\<lambda>b. remove (Suc 0) b k1))
           = (if ord = 2 then None else Some NilDereference)"
proof -
  define b0 :: "'a btree" where
    "b0 = \<lparr>store = (\<lambda>_. empty_node)(0 := \<lparr>parent = None, entries = [\<lparr>key = k1, val = v1\<rparr>], children = []\<rparr>),
           next_addr = Suc 0, root = Some 0, size_b = 1, order = ord\<rparr>"
  define b1 :: "'a btree" where
    "b1 = \<lparr>store = (\<lambda>_. empty_node)(0 := \<lparr>parent = None,
                                              entries = [\<lparr>key = k1, val = v1\<rparr>, \<lparr>key = k2, val = v2\<rparr>],
                                              children = []\<rparr>),
           next_addr = Suc 0, root = Some 0, size_b = 2, order = ord\<rparr>"
  have i1: "insert_b (Suc 0) (newBtreeOrder ord) k1 v1 = Inr b0"
    by (simp add: insert_b_def newBtreeOrder_def alloc_def b0_def)
  have s: "search (entries (store b0 0)) k2 = Inr (1, False)"
    using assms(2) by (simp add: b0_def search_one)
  have nf: "\<not> isFull (store b0 0) (order b0)" using assms(1) by (simp add: isFull_def b0_def)
  have i2: "insert_b (Suc 0) b0 k2 v2 = Inr b1"
    using s nf by (simp add: insert_b_def isLeaf_def set_entries_def b0_def b1_def)
  have run: "run_ops (Suc 0) (newBtreeOrder ord) [Insert k1 v1, Insert k2 v2] = Inr b1"
    using i1 i2 by simp
  have s1: "search (entries (store b1 0)) k1 = Inr (1, True)"
    using assms(2) by (simp add: b1_def search_two_first)
  have lf: "isLeaf (store b1 0)" "root b1 = Some 0" "order b1 = ord"
    "length (entries (store b1 0)) = 2" by (simp_all add: b1_def isLeaf_def)
  show ?thesis
  proof (cases "ord = 2")
    case True
    have "ceil_half (order b1) \<le> int (length (entries (store b1 0))) - 1"
      using True lf by (simp add: ceil_half_2)
    from removeNode_leaf_stop[OF lf(1) s1 _ this, of 0] lf(4)
    have "failure (removeNode (Suc 0) b1 0 k1) = None"
      by (simp add: failure_def del: removeNode.simps)
    with run True lf(2) show ?thesis by (simp add: and_then_def remove_def del: removeNode.simps)
  next
    case False
    with assms(1) have "3 \<le> ord" by simp
    from ceil_half_ge2[OF this] have c: "2 \<le> ceil_half ord" .
    have "removeNode (Suc 0) b1 0 k1 = Inl NilDereference"
      using s1 lf(1) c
      by (simp add: Let_def isUnderflowed_def set_entries_def underflow_def b1_def)
    with run False lf(2) show ?thesis
      by (simp add: and_then_def remove_def failure_def del: removeNode.simps)
  qed
qed

section \<open>Construction\<close>

text \<open>
  C10. \<open>newBtreeOrder\<close> checks nothing: for every integer \<open>ord\<close>, also below 3, zero or
  negative, the tree it returns has that order, no root and size 0. No operation ever
  changes the order, and the occupancy arithmetic is done with it as it is: \<open>isFull\<close>
  compares the entry count with \<open>ord\<close>, \<open>isUnderflowed\<close> and \<open>canSteal\<close> compare it
  with the ceiling of half of \<open>float64(ord)\<close> (which is \<open>ord\<close> itself up to a magnitude
  of \<open>2^53\<close>). In the operations: the second of two inserts of different keys into the
  new tree splits the root exactly when \<open>ord\<close> is at most 1, whatever integer \<open>ord\<close>
  is; and with an order of at least 2, the removal of the smaller of two inserted keys
  returns for the order 2 and runs into the underflow branch (which dereferences the
  \<open>nil\<close> parent of the root) for every larger order.
\<close>

theorem newBtreeOrder_no_validation:
  "root (newBtreeOrder ord :: 'v btree) = None
   \<and> size_b (newBtreeOrder ord :: 'v btree) = 0
   \<and> order (newBtreeOrder ord :: 'v btree) = ord
   \<and> isFull n (order (newBtreeOrder ord :: 'v btree)) = (ord \<le> int (length (entries n)))
   \<and> isUnderflowed n (order (newBtreeOrder ord :: 'v btree))
       = (int (length (entries n)) < (float64_of_int ord + 1) div 2)
   \<and> canSteal n (order (newBtreeOrder ord :: 'v btree))
       = ((float64_of_int ord + 1) div 2 < int (length (entries n)))
   \<and> (\<bar>ord\<bar> \<le> 2 ^ 53 \<longrightarrow> float64_of_int ord = ord)
   \<and> (\<forall>fuel ops b. run_ops fuel (newBtreeOrder ord :: 'v btree) ops = Inr b \<longrightarrow> order b = ord)
   \<and> (\<forall>k1 k2 v1 v2. k1 \<noteq> k2 \<longrightarrow>
         (\<exists>b :: 'v btree. run_ops (Suc 0) (newBtreeOrder ord) [Insert k1 v1, Insert k2 v2] = Inr b
               \<and> (root b = Some 0) = (1 < ord)))
   \<and> (\<forall>k1 k2 v1 v2. 2 \<le> ord \<and> k1 < k2 \<longrightarrow>
         failure (and_then (run_ops (Suc 0) (newBtreeOrder ord :: 'v btree)
                              [Insert k1 v1, Insert k2 v2])
                           (\<lambda>b. remove (Suc 0) b k1))
           = (if ord = 2 then None else Some NilDereference))"
proof (intro conjI allI impI)
  fix fuel ops and b :: "'v btree"
  assume "run_ops fuel (newBtreeOrder ord) ops = Inr b"
  from run_ops_order[OF this] show "order b = ord" by (simp add: newBtreeOrder_def)
next
  fix k1 k2 :: int and v1 v2 :: "'v option"
  assume "k1 \<noteq> k2"
  then show "\<exists>b :: 'v btree. run_ops (Suc 0) (newBtreeOrder ord) [Insert k1 v1, Insert k2 v2] = Inr b
               \<and> (root b = Some 0) = (1 < ord)"
    by (rule two_inserts)
next
  fix k1 k2 :: int and v1 v2 :: "'v option"
  assume "2 \<le> ord \<and> k1 < k2"
  then show "failure (and_then (run_ops (Suc 0) (newBtreeOrder ord :: 'v btree)
                              [Insert k1 v1, Insert k2 v2])
                           (\<lambda>b. remove (Suc 0) b k1))
           = (if ord = 2 then None else Some NilDereference)"
    using remove_after_two_inserts[of ord k1 k2 v1 v2] by blast
qed (simp_all add: newBtreeOrder_def isFull_def isUnderflowed_def canSteal_def ceil_half_def
       float64_of_int_def)

theorem newBtreeOrder_no_validation_witness:
  "root (newBtreeOrder (- 1) :: string btree) = None
   \<and> order (newBtreeOrder (- 1) :: string btree) = - 1
   \<and> \<bar>- 1 :: int\<bar> \<le> 2 ^ 53
   \<and> float64_of_int (- 1) = - 1
   \<and> run_ops 8 (newBtreeOrder (- 1)) [Insert 5 (Some ''a''), Insert 7 (Some ''b'')]
       = Inr (tree_of_ops (- 1) [Insert 5 (Some ''a''), Insert 7 (Some ''b'')])
   \<and> order (tree_of_ops (- 1) [Insert 5 (Some ''a''), Insert 7 (Some ''b'')]) = - 1
   \<and> (5::int) \<noteq> 7
   \<and> (\<exists>b :: string btree.
         run_ops (Suc 0) (newBtreeOrder (- 1)) [Insert 5 (Some ''a''), Insert 7 (Some ''b'')] = Inr b
         \<and> (root b = Some 0) = (1 < (- 1 :: int)))
   \<and> (2::int) \<le> 2 \<and> (5::int) < 7
   \<and> failure (and_then (run_ops (Suc 0) (newBtreeOrder 2 :: string btree)
                          [Insert 5 (Some ''a''), Insert 7 (Some ''b'')])
                        (\<lambda>b. remove (Suc 0) b 5))
       = (if (2::int) = 2 then None else Some NilDereference)"
proof -
  note t = newBtreeOrder_no_validation[where ?'v = string and ord = "- 1"]
  note t2 = newBtreeOrder_no_validation[where ?'v = string and ord = 2]
  have a: "\<bar>- 1 :: int\<bar> \<le> 2 ^ 53" by simp
  have "failure (run_ops 8 (newBtreeOrder (- 1)) [Insert 5 (Some ''a''), Insert 7 (Some ''b'')])
          = None" by code_simp
  then have k: "run_ops 8 (newBtreeOrder (- 1)) [Insert 5 (Some ''a''), Insert 7 (Some ''b'')]
       = Inr (tree_of_ops (- 1) [Insert 5 (Some ''a''), Insert 7 (Some ''b'')])"
    by (cases "run_ops 8 (newBtreeOrder (- 1)) [Insert 5 (Some ''a''), Insert 7 (Some ''b'')]")
       (simp_all add: failure_def tree_of_ops_def)
  from t k have o: "order (tree_of_ops (- 1) [Insert 5 (Some ''a''), Insert 7 (Some ''b'')]) = - 1"
    by blast
  have b: "(5::int) \<noteq> 7" by simp
  have c: "(2::int) \<le> 2 \<and> (5::int) < 7" by simp
  from t a have f: "float64_of_int (- 1) = - 1" by blast
  from t b have e: "\<exists>b :: string btree.
         run_ops (Suc 0) (newBtreeOrder (- 1)) [Insert 5 (Some ''a''), Insert 7 (Some ''b'')] = Inr b
         \<and> (root b = Some 0) = (1 < (- 1 :: int))" by blast
  from t2 c have r: "failure (and_then (run_ops (Suc 0) (newBtreeOrder 2 :: string btree)
                          [Insert 5 (Some ''a''), Insert 7 (Some ''b'')])
                        (\<lambda>b. remove (Suc 0) b 5))
       = (if (2::int) = 2 then None else Some NilDereference)" by blast
  from t a f k o b e c r show ?thesis by blast
qed

section \<open>Point lookups and upserts at concrete trees\<close>

text \<open>
  C1 (round trip), at two inputs. On a fresh tree of order 3, \<open>insert(5, "a")\<close> followed
  by \<open>get(5)\<close>: \<open>search\<close> answers \<open>(1, true)\<close> for the only entry and \<open>getNode\<close> reads
  \<open>node.entries[1]\<close>, an index out of range. And after the inserts of 10, 20, 5 and 6
  the key 6 is not found: the fourth insert splits the full root, makes the new node the
  root and then goes on writing into the old one.
\<close>

theorem get_after_insert_fails:
  "and_then (run_ops 8 (newBtreeOrder 3) [Insert 5 (Some ''a'')]) (\<lambda>b. get 8 b 5)
     = Inl IndexOutOfRange
   \<and> and_then (run_ops 8 (newBtreeOrder 3)
                  [Insert 10 (Some ''a''), Insert 20 (Some ''b''), Insert 5 (Some ''c''),
                   Insert 6 (Some ''d'')])
         (\<lambda>b. get 8 b 6)
       = Inr (None, False)"
  by code_simp

text \<open>
  C2 (get on a missing key), at the tree of order 3 that holds the single key 5, a root
  leaf: \<open>get(3)\<close> gets \<open>(0, false)\<close> from \<open>search\<close>, the guard \<open>i > len(node.children)\<close>
  compares 0 with 0 and lets it through, and \<open>node.children[0]\<close> is out of range. A
  missing key above 5 is reported as not found.
\<close>

theorem get_missing_key_fails:
  "and_then (run_ops 8 (newBtreeOrder 3) [Insert 5 (Some ''a'')]) (\<lambda>b. get 8 b 3)
     = Inl IndexOutOfRange
   \<and> and_then (run_ops 8 (newBtreeOrder 3) [Insert 5 (Some ''a'')]) (\<lambda>b. get 8 b 7)
       = Inr (None, False)"
  by code_simp

text \<open>
  C3 (upsert), at the same tree: a second \<open>insert(5, "b")\<close> finds the key, gets index 1
  from \<open>search\<close> and assigns \<open>node.entries[1]\<close>, out of range.
\<close>

theorem upsert_fails:
  "failure (run_ops 8 (newBtreeOrder 3) [Insert 5 (Some ''a''), Insert 5 (Some ''b'')])
     = Some IndexOutOfRange"
  by code_simp

section \<open>split of a leaf\<close>

text \<open>
  C4 as the claim states it fails on the full root leaf with the keys 5, 10, 20 (order
  3, \<open>mid = 1\<close>): the right node (address 2) keeps the median 10 next to 20, the entry
  of the returned node (address 3) has the median's key with a \<open>nil\<close> value, and the
  parent of the left node (address 1) is the node that was split (address 0).
\<close>

theorem split_counterexample:
  "(case split 0 (tree_of_ops 3 [Insert 10 (Some ''a''), Insert 20 (Some ''b''),
                                 Insert 5 (Some ''c'')])
    of Inl err \<Rightarrow> None
     | Inr (r, b') \<Rightarrow>
         Some (r, map key (entries (store b' 2)), entries (store b' r), parent (store b' 1)))
   = Some (3, [10, 20], [\<lparr>key = 10, val = None\<rparr>], Some 0)"
  by code_simp

text \<open>
  C4, amended, for leaves. \<open>split\<close> of an allocated leaf with at least one entry takes
  \<open>mid = len / 2\<close> and allocates exactly three nodes: a left node with the entries
  \<open>[0, mid)\<close>, a right node with the entries \<open>[mid, end)\<close> (the median stays in the
  right node), both without children, and the node it returns, whose parent field is
  that of the split leaf, whose single entry has the key of the median and the value
  \<open>nil\<close>, and whose children are exactly left and right. No node that existed before is
  written: the split leaf stays as it is and nothing is inserted into the parent (the
  caller installs the returned node); root, size and order of the tree are untouched. A
  leaf without entries is returned as it is.
\<close>

theorem split_effect:
  assumes "a < next_addr b" and "isLeaf (store b a)"
  shows "(case split a b of
            Inl err \<Rightarrow> False
          | Inr (r, b') \<Rightarrow>
              if entries (store b a) = [] then r = a \<and> b' = b
              else
                (let n = store b a; mid = length (entries n) div 2;
                     left = next_addr b; right = Suc (next_addr b)
                 in r = Suc (Suc (next_addr b))
                    \<and> next_addr b' = Suc (Suc (Suc (next_addr b)))
                    \<and> (\<forall>x. x \<notin> {left, right, r} \<longrightarrow> store b' x = store b x)
                    \<and> entries (store b' left) = take mid (entries n)
                    \<and> children (store b' left) = []
                    \<and> entries (store b' right) = drop mid (entries n)
                    \<and> children (store b' right) = []
                    \<and> entries (store b' left) @ entries (store b' right) = entries n
                    \<and> parent (store b' r) = parent n
                    \<and> entries (store b' r) = [\<lparr>key = key (entries n ! mid), val = None\<rparr>]
                    \<and> children (store b' r) = [left, right]
                    \<and> root b' = root b \<and> size_b b' = size_b b \<and> order b' = order b))"
  using assms by (simp add: split_def alloc_def Let_def isLeaf_def)

theorem split_effect_witness:
  "(2::nat) < next_addr example_tree
   \<and> isLeaf (store example_tree 2)
   \<and> (case split 2 example_tree of
            Inl err \<Rightarrow> False
          | Inr (r, b') \<Rightarrow>
              if entries (store example_tree 2) = [] then r = 2 \<and> b' = example_tree
              else
                (let n = store example_tree 2; mid = length (entries n) div 2;
                     left = next_addr example_tree; right = Suc (next_addr example_tree)
                 in r = Suc (Suc (next_addr example_tree))
                    \<and> next_addr b' = Suc (Suc (Suc (next_addr example_tree)))
                    \<and> (\<forall>x. x \<notin> {left, right, r} \<longrightarrow> store b' x = store example_tree x)
                    \<and> entries (store b' left) = take mid (entries n)
                    \<and> children (store b' left) = []
                    \<and> entries (store b' right) = drop mid (entries n)
                    \<and> children (store b' right) = []
                    \<and> entries (store b' left) @ entries (store b' right) = entries n
                    \<and> parent (store b' r) = parent n
                    \<and> entries (store b' r) = [\<lparr>key = key (entries n ! mid), val = None\<rparr>]
                    \<and> children (store b' r) = [left, right]
                    \<and> root b' = root example_tree \<and> size_b b' = size_b example_tree
                    \<and> order b' = order example_tree))"
proof -
  have h1: "(2::nat) < next_addr example_tree" by code_simp
  have h2: "isLeaf (store example_tree 2)" by code_simp
  show ?thesis
    by (intro conjI) (rule h1 h2 split_effect[OF h1 h2])+
qed

section \<open>Split threshold and occupancy\<close>




section \<open>remove\<close>

text \<open>
  C6 as the claim states it fails on the example tree, whose root holds the key 20:
  \<open>remove(20)\<close> returns true, but afterwards the root still holds 20, the right leaf
  holds 20 and 30 (the entry after the match, 25, is the one that went), and the left
  leaf, where the in-order predecessor 10 lives, is as before: nothing was swapped.
\<close>

theorem remove_internal_counterexample:
  "and_then (remove 8 example_tree 20)
     (\<lambda>(r, b'). Inr (r, map key (entries (store b' 3)), map key (entries (store b' 2)),
                      map key (entries (store b' 1))))
   = Inr (True, [20], [20, 30], [10])"
  by code_simp

text \<open>
  C6, amended. For a key held by a node that is not a leaf (entries sorted, more children
  than entries), \<open>removeNode\<close> swaps nothing and changes nothing in that node: it goes on
  in the child to the right of a matching entry, on the unchanged tree, and returns what
  the removal from that child returns.
\<close>

theorem remove_internal_descends:
  assumes "\<not> isLeaf (store b a)"
    and "sorted (map key (entries (store b a)))"
    and "j < length (entries (store b a))"
    and "length (entries (store b a)) < length (children (store b a))"
  shows "\<exists>i. i < length (entries (store b a))
           \<and> key (entries (store b a) ! i) = key (entries (store b a) ! j)
           \<and> removeNode (Suc fuel) b a (key (entries (store b a) ! j))
               = removeNode fuel b (children (store b a) ! Suc i) (key (entries (store b a) ! j))"
proof -
  let ?n = "store b a" let ?k = "key (entries (store b a) ! j)"
  have "?k \<in> key ` set (entries ?n)" using assms(3) by simp
  from search_finds[OF assms(2) this] obtain i where
    i: "search (entries ?n) ?k = Inr (i, True)" "1 \<le> i" "i \<le> int (length (entries ?n))"
       "key (entries ?n ! nat (i - 1)) = ?k" by blast
  have "nat i = Suc (nat (i - 1))" using i(2) by simp
  with i assms(1,4) show ?thesis
    by (intro exI[of _ "nat (i - 1)"]) (auto simp: Let_def)
qed

theorem remove_internal_descends_witness:
  "\<not> isLeaf (store example_tree 3)
   \<and> sorted (map key (entries (store example_tree 3)))
   \<and> (0::nat) < length (entries (store example_tree 3))
   \<and> length (entries (store example_tree 3)) < length (children (store example_tree 3))
   \<and> (\<exists>i. i < length (entries (store example_tree 3))
           \<and> key (entries (store example_tree 3) ! i) = key (entries (store example_tree 3) ! 0)
           \<and> removeNode (Suc 7) example_tree 3 (key (entries (store example_tree 3) ! 0))
               = removeNode 7 example_tree (children (store example_tree 3) ! Suc i)
                   (key (entries (store example_tree 3) ! 0)))"
proof -
  have h1: "\<not> isLeaf (store example_tree 3)" by code_simp
  have h2: "sorted (map key (entries (store example_tree 3)))" by code_simp
  have h3: "(0::nat) < length (entries (store example_tree 3))" by code_simp
  have h4: "length (entries (store example_tree 3)) < length (children (store example_tree 3))"
    by code_simp
  from remove_internal_descends[OF h1 h2 h3 h4, of 7] h1 h2 h3 h4 show ?thesis by blast
qed




text \<open>
  C8. In a tree whose inner nodes have more children than entries, the removal of a key
  that no node holds returns false and leaves the whole state (size, entries, structure)
  as it was, and a recursion budget of the height of the tree is enough for it. The empty
  tree is included.
\<close>

theorem remove_absent_key:
  assumes "\<forall>r. root b = Some r \<longrightarrow> node_shape d b r \<and> k \<notin> set (tree_keys d b r)"
    and "d \<le> fuel"
  shows "remove fuel b k = Inr (False, b)"
  using assms by (auto simp: remove_def removeNode_absent split: option.splits)

theorem remove_absent_key_witness:
  "root example_tree = Some 3
   \<and> node_shape 2 example_tree 3
   \<and> 7 \<notin> set (tree_keys 2 example_tree 3)
   \<and> (2::nat) \<le> 8
   \<and> remove 8 example_tree 7 = Inr (False, example_tree)"
proof -
  have h1: "root example_tree = Some 3" by code_simp
  have h2: "node_shape 2 example_tree 3" by code_simp
  have h3: "7 \<notin> set (tree_keys 2 example_tree 3)" by code_simp
  have h4: "(2::nat) \<le> 8" by simp
  from h1 h2 h3 have "\<forall>r. root example_tree = Some r \<longrightarrow>
      node_shape 2 example_tree r \<and> 7 \<notin> set (tree_keys 2 example_tree r)" by simp
  from remove_absent_key[OF this h4] h1 h2 h3 show ?thesis by simp
qed

section \<open>Range scans\<close>

text \<open>
  C9 as the claim states it fails: on the tree that holds the key 5, \<open>getAll(10)\<close> does
  not return the entry but panics, and \<open>getBetween\<close> panics on a new tree even with the
  limit 0.
\<close>

theorem range_scan_counterexample:
  "and_then (run_ops 8 (newBtreeOrder 3) [Insert 5 (Some ''a'')]) (\<lambda>b. getAll b 10)
     = Inl (Panic ''unimplemented'')
   \<and> getBetween (newBtreeOrder 3 :: string btree) 1 9 0 = Inl (Panic ''unimplemented'')"
  by code_simp

text \<open>
  C9, amended. \<open>getAll\<close> returns the empty result at once when the limit is zero or the
  size of the tree is zero, and it reads nothing but the size. In every other case
  \<open>getAll\<close>, and in every case \<open>getAbove\<close>, \<open>getBelow\<close> and \<open>getBetween\<close>, end in
  \<open>panic("unimplemented")\<close>: the range scans are not written yet.
\<close>

theorem range_scans_unimplemented:
  "getAll b limit = (if size_b b = 0 \<or> limit = 0 then Inr [] else Inl (Panic ''unimplemented''))
   \<and> getAll (b\<lparr>store := s, root := r, next_addr := m, order := ord\<rparr>) limit = getAll b limit
   \<and> getAbove b k limit = Inl (Panic ''unimplemented'')
   \<and> getBelow b k limit = Inl (Panic ''unimplemented'')
   \<and> getBetween b low high limit = Inl (Panic ''unimplemented'')"
  by (simp add: getAll_def getAbove_def getBelow_def getBetween_def)

end
